theory Spec2Isabelle
  imports Complex_Main "HOL-Library.Multiset"
begin

section \<open>Data model (autonomous\_poker\_ai.py, part 1)\<close>

text \<open>
  Python integers are unbounded, so every chip count and index is an \<open>int\<close>.
  A card is the two-character string (rank character, suit character) that the source
  hands to \<open>Card.new\<close>; the encoding into an integer is injective and belongs to the
  card library, so the string stands for the card.
\<close>

type_synonym card = string

datatype error =
    IllegalAction string      \<comment> \<open>ValueError "Illegal action ..."\<close>
  | MissingRaiseAmount        \<comment> \<open>ValueError "You must specify an amount to RAISE"\<close>
  | RaiseBelowMinimum         \<comment> \<open>ValueError "Raise total must be at least ... or All-In"\<close>
  | RaiseBelowCurrentBet      \<comment> \<open>ValueError "Invalid raise, you already bet ..."\<close>
  | InvalidPhase              \<comment> \<open>ValueError of the enum constructor \<open>GamePhase(5)\<close>\<close>
  | IndexError
  | ZeroDivisionError
  | InvalidFormat             \<comment> \<open>ValueError "Invalid format ..."\<close>
  | InvalidSuitOrRank         \<comment> \<open>ValueError "Invalid suit or rank."\<close>

text \<open>
  The specification groups the three errors of the RAISE branch under the kind
  \<open>InvalidRaiseAmount\<close> (missing amount, amount below the minimum without being
  all-in, amount below the bet already committed).
\<close>

fun is_InvalidRaiseAmount :: "error \<Rightarrow> bool" where
  "is_InvalidRaiseAmount MissingRaiseAmount = True"
| "is_InvalidRaiseAmount RaiseBelowMinimum = True"
| "is_InvalidRaiseAmount RaiseBelowCurrentBet = True"
| "is_InvalidRaiseAmount _ = False"

text \<open>
  The field \<open>history\<close> of a player is set to the empty list at construction and never
  used again; it is left out.
\<close>

record player =
  name :: string
  stack :: int
  is_ai :: bool
  hole_cards :: "card list"
  is_active :: bool
  is_all_in :: bool
  current_bet :: int
  total_invested :: int

definition Player_init :: "string \<Rightarrow> int \<Rightarrow> bool \<Rightarrow> player" where
  "Player_init nm st ai =
     \<lparr>name = nm, stack = st, is_ai = ai, hole_cards = [], is_active = True,
      is_all_in = False, current_bet = 0, total_invested = 0\<rparr>"

definition Player_reset_for_hand :: "player \<Rightarrow> player" where
  "Player_reset_for_hand p =
     p\<lparr>hole_cards := [], is_active := (stack p > 0), is_all_in := False,
       current_bet := 0, total_invested := 0\<rparr>"

definition reset_for_round :: "player \<Rightarrow> player" where
  "reset_for_round p = p\<lparr>current_bet := 0\<rparr>"

text \<open>\<open>Player.bet\<close>: returns the updated player and the chips really committed.\<close>

definition bet :: "player \<Rightarrow> int \<Rightarrow> player \<times> int" where
  "bet p a =
     (let actual = (if a \<ge> stack p then stack p else a);
          p1 = (if a \<ge> stack p then p\<lparr>is_all_in := True\<rparr> else p)
      in (p1\<lparr>stack := stack p1 - actual,
              current_bet := current_bet p1 + actual,
              total_invested := total_invested p1 + actual\<rparr>, actual))"

record pot =
  amount :: int
  eligible_players :: "string list"

definition Pot_init :: pot where
  "Pot_init = \<lparr>amount = 0, eligible_players = []\<rparr>"

definition pot_add :: "pot \<Rightarrow> int \<Rightarrow> pot" where
  "pot_add q a = q\<lparr>amount := amount q + a\<rparr>"

record poker_table =
  players :: "player list"
  community_cards :: "card list"
  small_blind_amount :: int
  big_blind_amount :: int
  button_idx :: int
  pots :: "pot list"

definition Table_init :: "int \<Rightarrow> int \<Rightarrow> poker_table" where
  "Table_init sb bb =
     \<lparr>players = [], community_cards = [], small_blind_amount = sb,
      big_blind_amount = bb, button_idx = 0, pots = [Pot_init]\<rparr>"

definition add_player :: "poker_table \<Rightarrow> player \<Rightarrow> poker_table" where
  "add_player t p = t\<lparr>players := players t @ [p]\<rparr>"

definition Table_reset_for_hand :: "poker_table \<Rightarrow> poker_table" where
  "Table_reset_for_hand t =
     t\<lparr>community_cards := [], pots := [Pot_init],
       players := map Player_reset_for_hand (players t)\<rparr>"

definition get_total_pot_size :: "poker_table \<Rightarrow> int" where
  "get_total_pot_size t = sum_list (map amount (pots t))"

definition get_active_players :: "poker_table \<Rightarrow> player list" where
  "get_active_players t = filter is_active (players t)"

section \<open>Betting state machine\<close>

datatype GamePhase = PRE_FLOP | FLOP | TURN | RIVER | SHOWDOWN

record game_controller =
  table :: poker_table
  phase :: GamePhase
  current_idx :: int
  min_raise :: int
  highest_bet :: int
  acted_this_round :: "int set"

definition GameController_init :: "poker_table \<Rightarrow> game_controller" where
  "GameController_init t =
     \<lparr>table = t, phase = PRE_FLOP, current_idx = 0, min_raise = big_blind_amount t,
      highest_bet = 0, acted_this_round = {}\<rparr>"

text \<open>
  Python list indexing: an index in \<open>[0, n)\<close> is itself, an index in \<open>[-n, 0)\<close> counts
  from the end, anything else raises IndexError (\<open>None\<close> here).
\<close>

definition py_index :: "nat \<Rightarrow> int \<Rightarrow> nat option" where
  "py_index n i =
     (if 0 \<le> i \<and> i < int n then Some (nat i)
      else if - int n \<le> i \<and> i < 0 then Some (nat (int n + i))
      else None)"

text \<open>
  \<open>_next_active\<close>: the loop over \<open>range(1, n + 1)\<close>; the sentinel is \<open>-1\<close>.
  The index \<open>(start_idx + i) % n\<close> is in range whenever the loop body runs.
\<close>

fun next_active_loop :: "player list \<Rightarrow> int \<Rightarrow> nat list \<Rightarrow> int" where
  "next_active_loop ps start [] = - 1"
| "next_active_loop ps start (i # rest) =
     (let idx = (start + int i) mod int (length ps); p = ps ! nat idx
      in if is_active p \<and> \<not> is_all_in p then idx
         else next_active_loop ps start rest)"

definition next_active :: "player list \<Rightarrow> int \<Rightarrow> int" where
  "next_active ps start = next_active_loop ps start [1 ..< Suc (length ps)]"

text \<open>
  \<open>is_round_over\<close>: the first statement of the source builds a list and does nothing
  with it; the loop over \<open>enumerate(players)\<close> decides.
\<close>

fun round_over_loop :: "int set \<Rightarrow> int \<Rightarrow> (nat \<times> player) list \<Rightarrow> bool" where
  "round_over_loop acted hb [] = True"
| "round_over_loop acted hb ((i, p) # rest) =
     (if is_active p \<and> \<not> is_all_in p
      then (if int i \<notin> acted \<or> current_bet p < hb then False
            else round_over_loop acted hb rest)
      else round_over_loop acted hb rest)"

definition is_round_over :: "game_controller \<Rightarrow> bool" where
  "is_round_over g =
     round_over_loop (acted_this_round g) (highest_bet g)
       (enumerate 0 (players (table g)))"

text \<open>
  \<open>get_legal_actions\<close>: the dictionary has a fixed set of keys, so it is a record;
  the two raise entries are either an integer or \<open>False\<close> (\<open>None\<close> here).
\<close>

record legal_actions =
  FOLD :: bool
  CALL :: int
  CHECK :: bool
  RAISE_TO_MIN :: "int option"
  RAISE_TO_MAX :: "int option"

definition legal_for :: "game_controller \<Rightarrow> player \<Rightarrow> legal_actions" where
  "legal_for g p =
     (let call_amt = highest_bet g - current_bet p
      in \<lparr>FOLD = True, CALL = min call_amt (stack p), CHECK = (call_amt = 0),
          RAISE_TO_MIN = (if stack p > call_amt
             then Some (min (highest_bet g + min_raise g) (stack p + current_bet p))
             else None),
          RAISE_TO_MAX = (if stack p > call_amt
             then Some (stack p + current_bet p) else None)\<rparr>)"

definition get_legal_actions :: "game_controller \<Rightarrow> error + legal_actions" where
  "get_legal_actions g =
     (case py_index (length (players (table g))) (current_idx g) of
        None \<Rightarrow> Inl IndexError
      | Some i \<Rightarrow> Inr (legal_for g (players (table g) ! i)))"

text \<open>Python truth value of an entry that is an integer or \<open>False\<close>.\<close>

fun truthy :: "int option \<Rightarrow> bool" where
  "truthy None = False"
| "truthy (Some v) = (v \<noteq> 0)"

text \<open>
  \<open>self.table.pots[0].add(p.bet(x))\<close> for the player at list position \<open>i\<close>, once
  \<open>pots[0]\<close> is known to exist.
\<close>

definition commit_bet :: "game_controller \<Rightarrow> nat \<Rightarrow> int \<Rightarrow> game_controller" where
  "commit_bet g i x =
     (let t = table g; (p1, actual) = bet (players t ! i) x
      in g\<lparr>table := t\<lparr>players := (players t)[i := p1],
                        pots := (pots t)[0 := pot_add (pots t ! 0) actual]\<rparr>\<rparr>)"

text \<open>The last three lines of \<open>process_action\<close>, shared by every accepted action.\<close>

definition finish_action :: "game_controller \<Rightarrow> game_controller" where
  "finish_action g =
     (let g1 = g\<lparr>acted_this_round := insert (current_idx g) (acted_this_round g)\<rparr>
      in if \<not> is_round_over g1
         then g1\<lparr>current_idx := next_active (players (table g1)) (current_idx g1)\<rparr>
         else g1)"

text \<open>
  \<open>process_action\<close> returns the error raised, if any, and the state the call leaves
  behind. In the CALL branch \<open>legal['CALL'] is not False\<close> is always true, the entry
  being an integer. \<open>pots[0]\<close> is evaluated before the bet is placed.
\<close>

definition process_action ::
  "game_controller \<Rightarrow> string \<Rightarrow> int \<Rightarrow> error option \<times> game_controller" where
  "process_action g action a =
     (case py_index (length (players (table g))) (current_idx g) of
        None \<Rightarrow> (Some IndexError, g)
      | Some i \<Rightarrow>
         (let p = players (table g) ! i; legal = legal_for g p
          in if action = ''FOLD'' then
               (None, finish_action
                  (g\<lparr>table := (table g)\<lparr>players :=
                       (players (table g))[i := p\<lparr>is_active := False\<rparr>]\<rparr>\<rparr>))
             else if action = ''CHECK'' \<and> CHECK legal then (None, finish_action g)
             else if action = ''CALL'' then
               (if pots (table g) = [] then (Some IndexError, g)
                else (None, finish_action (commit_bet g i (CALL legal))))
             else if action = ''RAISE'' \<and> truthy (RAISE_TO_MIN legal) then
               (if a = 0 then (Some MissingRaiseAmount, g)
                else if a < highest_bet g + min_raise g \<and> a \<noteq> stack p + current_bet p
                  then (Some RaiseBelowMinimum, g)
                else if a - current_bet p < 0 then (Some RaiseBelowCurrentBet, g)
                else if pots (table g) = [] then (Some IndexError, g)
                else
                  (let g1 = commit_bet g i (a - current_bet p);
                       g2 = (if a - highest_bet g \<ge> min_raise g
                             then g1\<lparr>min_raise := a - highest_bet g,
                                     acted_this_round := {}\<rparr>
                             else g1)
                   in (None, finish_action (g2\<lparr>highest_bet := a\<rparr>))))
             else (Some (IllegalAction action), g)))"

text \<open>
  \<open>start_hand\<close>. The modulus raises ZeroDivisionError on an empty table, after the
  reset. Both blind positions are computed before either blind is posted.
\<close>

definition post_blind :: "poker_table \<Rightarrow> nat \<Rightarrow> int \<Rightarrow> poker_table \<times> int" where
  "post_blind t i x =
     (let (p1, actual) = bet (players t ! i) x
      in (t\<lparr>players := (players t)[i := p1]\<rparr>, actual))"

definition start_hand :: "game_controller \<Rightarrow> error option \<times> game_controller" where
  "start_hand g =
     (let t1 = Table_reset_for_hand (table g);
          n = length (players t1)
      in if n = 0 then (Some ZeroDivisionError, g\<lparr>table := t1, phase := PRE_FLOP\<rparr>)
         else
          (let t2 = t1\<lparr>button_idx := (button_idx t1 + 1) mod int n\<rparr>;
               sb_idx = next_active (players t2) (button_idx t2);
               bb_idx = next_active (players t2) sb_idx
           in case py_index n sb_idx of
                None \<Rightarrow> (Some IndexError, g\<lparr>table := t2, phase := PRE_FLOP\<rparr>)
              | Some si \<Rightarrow>
                 (let (t3, sb_amt) = post_blind t2 si (small_blind_amount t2)
                  in case py_index n bb_idx of
                       None \<Rightarrow> (Some IndexError, g\<lparr>table := t3, phase := PRE_FLOP\<rparr>)
                     | Some bi \<Rightarrow>
                        (let (t4, bb_amt) = post_blind t3 bi (big_blind_amount t3);
                             t5 = t4\<lparr>pots := (pots t4)[0 :=
                                       pot_add (pots t4 ! 0) (sb_amt + bb_amt)]\<rparr>
                         in (None,
                             g\<lparr>table := t5, phase := PRE_FLOP,
                               highest_bet := big_blind_amount t5,
                               min_raise := big_blind_amount t5,
                               current_idx := next_active (players t5) bb_idx,
                               acted_this_round := {}\<rparr>)))))"

text \<open>\<open>advance_phase\<close>: \<open>GamePhase(value + 1)\<close> raises at SHOWDOWN, before any change.\<close>

fun next_phase :: "GamePhase \<Rightarrow> GamePhase option" where
  "next_phase PRE_FLOP = Some FLOP"
| "next_phase FLOP = Some TURN"
| "next_phase TURN = Some RIVER"
| "next_phase RIVER = Some SHOWDOWN"
| "next_phase SHOWDOWN = None"

definition advance_phase :: "game_controller \<Rightarrow> error option \<times> game_controller" where
  "advance_phase g =
     (case next_phase (phase g) of
        None \<Rightarrow> (Some InvalidPhase, g)
      | Some ph \<Rightarrow>
         (let t1 = (table g)\<lparr>players := map reset_for_round (players (table g))\<rparr>
          in (None,
              g\<lparr>phase := ph, table := t1, highest_bet := 0,
                min_raise := big_blind_amount t1, acted_this_round := {},
                current_idx := next_active (players t1) (button_idx t1)\<rparr>)))"

text \<open>
  Table setup as in \<open>main\<close> and the test scripts: a table, players added in order,
  then the controller.
\<close>

definition table_setup :: "int \<Rightarrow> int \<Rightarrow> player list \<Rightarrow> game_controller" where
  "table_setup sb bb ps = GameController_init (foldl add_player (Table_init sb bb) ps)"


section \<open>Card parser (\<open>DeckManager.parse_card\<close>)\<close>











section \<open>Equity sampler (\<open>AIEngine._monte_carlo_equity\<close>)\<close>

text \<open>
  Modelled from the spec: the deck of the card library is missing from the sources; it
  is "the universe of 52 cards", every rank with every suit, and a new deck comes
  shuffled.
\<close>

definition full_deck :: "card list" where
  "full_deck = concat (map (\<lambda>r. map (\<lambda>s. [r, s]) ''shdc'') ''23456789TJQKA'')"

text \<open>\<open>list.pop()\<close> takes the last element and raises IndexError on an empty list.\<close>

definition pop :: "'a list \<Rightarrow> error + ('a \<times> 'a list)" where
  "pop xs = (if xs = [] then Inl IndexError else Inr (last xs, butlast xs))"

text \<open>The loop that completes the board: \<open>k\<close> times \<open>simulated_board.append(available.pop())\<close>.\<close>

fun deal_board :: "nat \<Rightarrow> card list \<Rightarrow> card list \<Rightarrow> error + card list" where
  "deal_board 0 simulated_board available = Inr simulated_board"
| "deal_board (Suc k) simulated_board available =
     (case pop available of
        Inl e \<Rightarrow> Inl e
      | Inr (c, rest) \<Rightarrow> deal_board k (simulated_board @ [c]) rest)"

text \<open>
  One pass of the loop body up to the evaluation. The random source is a state \<open>'r\<close>
  and \<open>shuffle\<close> a parameter: it returns the list in the order the generator chose and
  the generator's next state. The result is the opponent's two cards and the completed
  board, or the error of a \<open>pop\<close> on an empty list.
\<close>

definition trial ::
  "('r \<Rightarrow> card list \<Rightarrow> card list \<times> 'r) \<Rightarrow> card list \<Rightarrow> card list \<Rightarrow> 'r \<Rightarrow>
     (error + (card list \<times> card list)) \<times> 'r" where
  "trial shuffle pocket_cards board_cards r =
     (let known_cards = set (pocket_cards @ board_cards);
          (deck_cards, r1) = shuffle r full_deck;
          (available, r2) = shuffle r1 (filter (\<lambda>c. c \<notin> known_cards) deck_cards)
      in (case pop available of
            Inl e \<Rightarrow> Inl e
          | Inr (c1, av1) \<Rightarrow>
             (case pop av1 of
                Inl e \<Rightarrow> Inl e
              | Inr (c2, av2) \<Rightarrow>
                 (case deal_board (5 - length board_cards) board_cards av2 of
                    Inl e \<Rightarrow> Inl e
                  | Inr simulated_board \<Rightarrow> Inr ([c1, c2], simulated_board))), r2))"

text \<open>
  The loop over \<open>range(iterations)\<close> with its two counters. \<open>evaluate board hand\<close> is
  the evaluator of the card library, a parameter; a lower rank is a better hand.
\<close>

fun mc_loop ::
  "(card list \<Rightarrow> card list \<Rightarrow> int) \<Rightarrow> ('r \<Rightarrow> card list \<Rightarrow> card list \<times> 'r) \<Rightarrow>
     card list \<Rightarrow> card list \<Rightarrow> nat \<Rightarrow> int \<Rightarrow> int \<Rightarrow> 'r \<Rightarrow> (error + (int \<times> int)) \<times> 'r" where
  "mc_loop evaluate shuffle pocket_cards board_cards 0 wins ties r = (Inr (wins, ties), r)"
| "mc_loop evaluate shuffle pocket_cards board_cards (Suc k) wins ties r =
     (case trial shuffle pocket_cards board_cards r of
        (Inl e, r') \<Rightarrow> (Inl e, r')
      | (Inr (opp_cards, simulated_board), r') \<Rightarrow>
         (let ai_rank = evaluate simulated_board pocket_cards;
              opp_rank = evaluate simulated_board opp_cards;
              wins1 = (if ai_rank < opp_rank then wins + 1 else wins);
              ties1 = (if ai_rank < opp_rank then ties
                       else if ai_rank = opp_rank then ties + 1 else ties)
          in mc_loop evaluate shuffle pocket_cards board_cards k wins1 ties1 r'))"

text \<open>
  \<open>_monte_carlo_equity\<close>. The source returns a float; the model returns the rational
  number \<open>(wins + ties / 2) / iterations\<close> whose nearest double that float is (the
  counters and their half are exact in double precision). The second component is the
  state of the random source after the call.
\<close>

definition monte_carlo_equity ::
  "(card list \<Rightarrow> card list \<Rightarrow> int) \<Rightarrow> ('r \<Rightarrow> card list \<Rightarrow> card list \<times> 'r) \<Rightarrow>
     card list \<Rightarrow> card list \<Rightarrow> int \<Rightarrow> 'r \<Rightarrow> (error + rat) \<times> 'r" where
  "monte_carlo_equity evaluate shuffle pocket_cards board_cards iterations r =
     (if pocket_cards = [] then (Inr 0, r)
      else
       (case mc_loop evaluate shuffle pocket_cards board_cards (nat iterations) 0 0 r of
          (Inl e, r') \<Rightarrow> (Inl e, r')
        | (Inr (wins, ties), r') \<Rightarrow>
           (if iterations = 0 then (Inl ZeroDivisionError, r')
            else (Inr ((of_int wins + of_int ties / 2) / of_int iterations), r'))))"


subsection \<open>Describing a run of the sampler\<close>

text \<open>
  The draws of the first \<open>k\<close> passes of the loop, in order: the opponent's cards and the
  completed board of each pass, the random source being threaded as the loop does. The
  list stops at a pass that raises.
\<close>

fun trial_log ::
  "('r \<Rightarrow> card list \<Rightarrow> card list \<times> 'r) \<Rightarrow> card list \<Rightarrow> card list \<Rightarrow> nat \<Rightarrow> 'r \<Rightarrow>
     (card list \<times> card list) list" where
  "trial_log shuffle pocket_cards board_cards 0 r = []"
| "trial_log shuffle pocket_cards board_cards (Suc k) r =
     (case trial shuffle pocket_cards board_cards r of
        (Inl e, r') \<Rightarrow> []
      | (Inr t, r') \<Rightarrow> t # trial_log shuffle pocket_cards board_cards k r')"

text \<open>
  An exact draw without replacement: two opponent cards and a board that extends the
  given one to five cards, the drawn cards pairwise distinct, taken from the deck and
  disjoint from the hero's cards and the given board.
\<close>

definition exact_draw :: "card list \<Rightarrow> card list \<Rightarrow> card list \<times> card list \<Rightarrow> bool" where
  "exact_draw pocket_cards board_cards t =
     (let opp_cards = fst t; simulated_board = snd t;
          drawn = opp_cards @ drop (length board_cards) simulated_board
      in length opp_cards = 2 \<and>
         take (length board_cards) simulated_board = board_cards \<and>
         length simulated_board = 5 \<and>
         length drawn = 2 + (5 - length board_cards) \<and>
         distinct drawn \<and>
         set drawn \<inter> set (pocket_cards @ board_cards) = {} \<and>
         set drawn \<subseteq> set full_deck)"

text \<open>
  The tallies of a list of draws: a win where the opponent's rank is strictly greater
  than the hero's, a tie where the two ranks are equal.
\<close>

definition wins_of ::
  "(card list \<Rightarrow> card list \<Rightarrow> int) \<Rightarrow> card list \<Rightarrow> (card list \<times> card list) list \<Rightarrow> nat" where
  "wins_of evaluate pocket_cards draws =
     length (filter (\<lambda>t. evaluate (snd t) pocket_cards < evaluate (snd t) (fst t)) draws)"

definition ties_of ::
  "(card list \<Rightarrow> card list \<Rightarrow> int) \<Rightarrow> card list \<Rightarrow> (card list \<times> card list) list \<Rightarrow> nat" where
  "ties_of evaluate pocket_cards draws =
     length (filter (\<lambda>t. evaluate (snd t) pocket_cards = evaluate (snd t) (fst t)) draws)"

text \<open>A random source for the examples: the state is a counter and rotates the list.\<close>

definition rotating_shuffle :: "nat \<Rightarrow> card list \<Rightarrow> card list \<times> nat" where
  "rotating_shuffle r xs = (rotate r xs, Suc r)"

text \<open>
  An evaluator for the examples: it adds the character codes of the ranks in the hand
  and ignores the board; the higher the sum, the better (lower) the rank.
\<close>

definition code_sum_rank :: "card list \<Rightarrow> card list \<Rightarrow> int" where
  "code_sum_rank board hand = - sum_list (map (\<lambda>c. int (of_char (hd c))) hand)"

section \<open>Reachable states and the states of the scenarios\<close>

text \<open>
  The states a program can reach through the public operations: table setup with
  freshly constructed players, then any sequence of \<open>start_hand\<close>, \<open>process_action\<close>
  and \<open>advance_phase\<close>. A call that raises leaves the state it had reached, which is
  the second component of the result, so that state is reachable as well.
\<close>

inductive reachable :: "game_controller \<Rightarrow> bool" where
  init: "reachable (table_setup sb bb (map (\<lambda>(nm, st, ai). Player_init nm st ai) specs))"
| started: "reachable g \<Longrightarrow> reachable (snd (start_hand g))"
| acted: "reachable g \<Longrightarrow> reachable (snd (process_action g action a))"
| advanced: "reachable g \<Longrightarrow> reachable (snd (advance_phase g))"

definition conserved :: "game_controller \<Rightarrow> bool" where
  "conserved g =
     (sum_list (map total_invested (players (table g))) =
      sum_list (map amount (pots (table g))))"


text \<open>The set-up of test\_betting.py and test\_loop.py: two players at one table.\<close>

definition two_player_table :: "int \<Rightarrow> int \<Rightarrow> int \<Rightarrow> int \<Rightarrow> game_controller" where
  "two_player_table sb bb st1 st2 =
     table_setup sb bb [Player_init ''P1'' st1 False, Player_init ''P2'' st2 False]"

text \<open>test\_loop.py: \<open>Table(small_blind=bb//2, big_blind=bb)\<close>, both stacks equal.\<close>

definition heads_up :: "int \<Rightarrow> int \<Rightarrow> game_controller" where
  "heads_up bb st = two_player_table (bb div 2) bb st st"

text \<open>
  Blinds 10 and 20, stacks 1000 and \<open>st2\<close>; the hand starts and the first player
  raises to 100, which makes the minimum raise 80. The second player is next to act.
  With \<open>st2 = 30\<close> he has 10 chips left and 80 to call; with \<open>st2 = 150\<close> he has 130
  left, so that his all-in total of 150 is a raise below the minimum of 180.
\<close>

definition raised_pot :: "int \<Rightarrow> game_controller" where
  "raised_pot st2 =
     snd (process_action (snd (start_hand (two_player_table 10 20 1000 st2))) ''RAISE'' 100)"


text \<open>The scenario of test\_betting.py: the hand starts, the first actor calls, the next checks.\<close>

definition betting_scenario :: "nat \<Rightarrow> game_controller" where
  "betting_scenario k =
     (let g1 = snd (start_hand (heads_up 20 1000));
          g2 = snd (process_action g1 ''CALL'' 0);
          g3 = snd (process_action g2 ''CHECK'' 0)
      in if k = 0 then heads_up 20 1000 else if k = 1 then g1 else if k = 2 then g2 else g3)"

section \<open>Auxiliary facts\<close>

lemma py_index_less: "py_index n i = Some j \<Longrightarrow> j < n"
  by (auto simp: py_index_def split: if_splits)

lemma sum_list_map_update:
  fixes f :: "'a \<Rightarrow> int"
  shows "i < length xs \<Longrightarrow>
    sum_list (map f (xs[i := y])) = sum_list (map f xs) - f (xs ! i) + f y"
proof (induction xs arbitrary: i)
  case Nil
  then show ?case by simp
next
  case (Cons x xs)
  then show ?case by (cases i) auto
qed

lemma bet_effect:
  "bet p x = (p1, actual) \<Longrightarrow>
     actual = min x (stack p) \<and> stack p1 = stack p - actual \<and>
     is_all_in p1 = (is_all_in p \<or> x \<ge> stack p) \<and>
     current_bet p1 = current_bet p + actual \<and>
     total_invested p1 = total_invested p + actual \<and> is_active p1 = is_active p"
  by (auto simp: bet_def Let_def split: if_splits)

lemma next_active_loop_range:
  "ps \<noteq> [] \<Longrightarrow>
     - 1 \<le> next_active_loop ps s is \<and> next_active_loop ps s is < int (length ps)"
proof (induction "is")
  case Nil
  then show ?case by simp
next
  case (Cons i "is")
  have "0 < int (length ps)" using Cons.prems by simp
  then have "0 \<le> (s + int i) mod int (length ps)"
    and lt: "(s + int i) mod int (length ps) < int (length ps)"
    by simp_all
  then have "- 1 \<le> (s + int i) mod int (length ps)" by linarith
  then show ?case using Cons lt by (simp add: Let_def)
qed

lemma next_active_range:
  "ps \<noteq> [] \<Longrightarrow> - 1 \<le> next_active ps s \<and> next_active ps s < int (length ps)"
  unfolding next_active_def by (rule next_active_loop_range)

lemma py_index_next_active:
  assumes "ps \<noteq> []" "length ps = n"
  shows "\<exists>j<n. py_index n (next_active ps s) = Some j"
proof -
  have "- 1 \<le> next_active ps s \<and> next_active ps s < int n"
    using next_active_range [OF assms(1)] assms(2) by simp
  moreover have "0 < n" using assms by auto
  ultimately show ?thesis by (auto simp: py_index_def)
qed


lemma finish_action_fields:
  "highest_bet (finish_action g) = highest_bet g"
  "min_raise (finish_action g) = min_raise g"
  "acted_this_round (finish_action g) = insert (current_idx g) (acted_this_round g)"
  "table (finish_action g) = table g"
  "phase (finish_action g) = phase g"
  by (simp_all add: finish_action_def Let_def)

lemma commit_bet_fields:
  "highest_bet (commit_bet g i x) = highest_bet g"
  "min_raise (commit_bet g i x) = min_raise g"
  "acted_this_round (commit_bet g i x) = acted_this_round g"
  "current_idx (commit_bet g i x) = current_idx g"
  "phase (commit_bet g i x) = phase g"
  by (simp_all add: commit_bet_def Let_def split: prod.splits)

subsection \<open>Every operation keeps the chips conserved\<close>

lemma conserved_commit_bet:
  assumes "conserved g" "i < length (players (table g))" "pots (table g) \<noteq> []"
  shows "conserved (commit_bet g i x)"
proof -
  obtain p1 actual where b: "bet (players (table g) ! i) x = (p1, actual)"
    by (cases "bet (players (table g) ! i) x")
  have "0 < length (pots (table g))" using assms(3) by simp
  then show ?thesis using assms(1,2) bet_effect [OF b]
    by (simp add: conserved_def commit_bet_def Let_def b sum_list_map_update pot_add_def)
qed

lemma conserved_finish: "conserved (finish_action g) = conserved g"
  by (simp add: conserved_def finish_action_def Let_def)

lemma conserved_process_action:
  assumes "conserved g"
  shows "conserved (snd (process_action g action a))"
proof (cases "py_index (length (players (table g))) (current_idx g)")
  case None
  then show ?thesis using assms by (simp add: process_action_def)
next
  case (Some i)
  then have i: "i < length (players (table g))" by (rule py_index_less)
  have fold: "conserved (g\<lparr>table := (table g)\<lparr>players :=
                (players (table g))[i := (players (table g) ! i)\<lparr>is_active := False\<rparr>]\<rparr>\<rparr>)"
    using assms i by (simp add: conserved_def sum_list_map_update)
  have raise: "\<And>x. pots (table g) \<noteq> [] \<Longrightarrow> conserved (commit_bet g i x)"
    using assms i by (rule conserved_commit_bet)
  have r1: "\<And>g1 m. conserved (g1\<lparr>min_raise := m, acted_this_round := {}\<rparr>) = conserved g1"
    by (simp add: conserved_def)
  have r2: "\<And>g1 m. conserved (g1\<lparr>highest_bet := m\<rparr>) = conserved g1"
    by (simp add: conserved_def)
  show ?thesis using assms fold raise
    by (simp add: process_action_def Some Let_def conserved_finish r1 r2)
qed

lemma post_blind_effect:
  assumes "post_blind t i x = (t', actual)" "i < length (players t)"
  shows "sum_list (map total_invested (players t')) =
           sum_list (map total_invested (players t)) + actual"
    and "pots t' = pots t" and "length (players t') = length (players t)"
    and "big_blind_amount t' = big_blind_amount t"
proof -
  obtain p1 a1 where b: "bet (players t ! i) x = (p1, a1)" by (cases "bet (players t ! i) x")
  from assms(1) have t': "t' = t\<lparr>players := (players t)[i := p1]\<rparr>" and a: "actual = a1"
    by (simp_all add: post_blind_def b)
  show "sum_list (map total_invested (players t')) =
          sum_list (map total_invested (players t)) + actual"
    using bet_effect [OF b] assms(2) by (simp add: t' a sum_list_map_update)
  show "pots t' = pots t" "length (players t') = length (players t)"
    "big_blind_amount t' = big_blind_amount t" by (simp_all add: t')
qed

lemma sum_invested_reset: "sum_list (map (total_invested \<circ> Player_reset_for_hand) ps) = 0"
  by (induction ps) (simp_all add: Player_reset_for_hand_def)

lemma conserved_start_hand: "conserved (snd (start_hand g))"
proof (cases "players (table g) = []")
  case True
  then show ?thesis
    by (simp add: start_hand_def Table_reset_for_hand_def conserved_def Pot_init_def)
next
  case False
  define t1 where "t1 = Table_reset_for_hand (table g)"
  define n where "n = length (players t1)"
  define t2 where "t2 = t1\<lparr>button_idx := (button_idx t1 + 1) mod int n\<rparr>"
  define sb_idx where "sb_idx = next_active (players t2) (button_idx t2)"
  define bb_idx where "bb_idx = next_active (players t2) sb_idx"
  have ps2: "players t2 \<noteq> []" "length (players t2) = n" and n0: "n \<noteq> 0"
    using False by (simp_all add: t2_def n_def t1_def Table_reset_for_hand_def)
  obtain si where si: "si < n" "py_index n sb_idx = Some si"
    using py_index_next_active [OF ps2] unfolding sb_idx_def by blast
  obtain bi where bi: "bi < n" "py_index n bb_idx = Some bi"
    using py_index_next_active [OF ps2] unfolding bb_idx_def by blast
  obtain t3 sb_amt where p3: "post_blind t2 si (small_blind_amount t2) = (t3, sb_amt)"
    by (cases "post_blind t2 si (small_blind_amount t2)")
  obtain t4 bb_amt where p4: "post_blind t3 bi (big_blind_amount t3) = (t4, bb_amt)"
    by (cases "post_blind t3 bi (big_blind_amount t3)")
  have e3: "sum_list (map total_invested (players t3)) = sb_amt" "pots t3 = [Pot_init]"
      "length (players t3) = n"
    using post_blind_effect [OF p3] si(1) ps2(2)
    by (simp_all add: t2_def t1_def Table_reset_for_hand_def sum_invested_reset)
  have e4: "sum_list (map total_invested (players t4)) = sb_amt + bb_amt"
      "pots t4 = [Pot_init]"
    using post_blind_effect [OF p4] bi(1) e3 by simp_all
  have "snd (start_hand g) =
      g\<lparr>table := t4\<lparr>pots := (pots t4)[0 := pot_add (pots t4 ! 0) (sb_amt + bb_amt)]\<rparr>,
        phase := PRE_FLOP,
        highest_bet := big_blind_amount t4, min_raise := big_blind_amount t4,
        current_idx := next_active (players t4) bb_idx, acted_this_round := {}\<rparr>"
    using n0 si(2) bi(2) p3 p4
    unfolding start_hand_def Let_def
    by (simp add: t1_def [symmetric] n_def [symmetric] t2_def [symmetric]
        sb_idx_def [symmetric] bb_idx_def [symmetric])
  then show ?thesis using e4 by (simp add: conserved_def pot_add_def Pot_init_def)
qed

lemma sum_invested_round:
  "sum_list (map (total_invested \<circ> reset_for_round) ps) = sum_list (map total_invested ps)"
  by (induction ps) (simp_all add: reset_for_round_def)

lemma conserved_advance_phase: "conserved g \<Longrightarrow> conserved (snd (advance_phase g))"
  by (cases "next_phase (phase g)")
     (simp_all add: advance_phase_def conserved_def Let_def sum_invested_round)

lemma foldl_add_player:
  "players (foldl add_player t ps) = players t @ ps \<and>
   pots (foldl add_player t ps) = pots t"
  by (induction ps arbitrary: t) (simp_all add: add_player_def)

lemma conserved_table_setup:
  "conserved (table_setup sb bb (map (\<lambda>(nm, st, ai). Player_init nm st ai) specs))"
proof -
  have "sum_list (map (total_invested \<circ> (\<lambda>(nm, st, ai). Player_init nm st ai)) specs) = 0"
    by (induction specs) (auto simp: Player_init_def)
  then show ?thesis
    by (simp add: conserved_def table_setup_def GameController_init_def foldl_add_player
        Table_init_def Pot_init_def)
qed

lemma reachable_two_player_table: "reachable (two_player_table sb bb st1 st2)"
  using reachable.init [of sb bb "[(''P1'', st1, False), (''P2'', st2, False)]"]
  by (simp add: two_player_table_def)

section \<open>Verified properties\<close>

text \<open>
  C1. Chip conservation: in every state reachable from table setup through
  \<open>start_hand\<close>, \<open>process_action\<close> and \<open>advance_phase\<close>, the players'
  \<open>total_invested\<close> add up to the amounts of the pots.
\<close>

theorem chip_conservation:
  "reachable g \<Longrightarrow>
     sum_list (map total_invested (players (table g))) = get_total_pot_size (table g)"
proof -
  assume "reachable g"
  then have "conserved g"
  proof (induction rule: reachable.induct)
    case (init sb bb specs)
    show ?case by (rule conserved_table_setup)
  next
    case (started g)
    show ?case by (rule conserved_start_hand)
  next
    case (acted g action a)
    then show ?case by (simp add: conserved_process_action)
  next
    case (advanced g)
    then show ?case by (simp add: conserved_advance_phase)
  qed
  then show ?thesis by (simp add: conserved_def get_total_pot_size_def)
qed

theorem chip_conservation_witness:
  "reachable (betting_scenario 2) \<and>
   sum_list (map total_invested (players (table (betting_scenario 2)))) =
     get_total_pot_size (table (betting_scenario 2)) \<and>
   get_total_pot_size (table (betting_scenario 2)) = 40"
proof -
  have r: "reachable (betting_scenario 2)"
    unfolding betting_scenario_def Let_def heads_up_def
    by (simp add: reachable.started reachable.acted reachable_two_player_table)
  have v: "get_total_pot_size (table (betting_scenario 2)) = 40" by code_simp
  show ?thesis using r v chip_conservation [OF r] by simp
qed


text \<open>
  C2, as the code has it. Every rejected action leaves the whole state as it was.
  A RAISE below \<open>highest_bet + min_raise\<close> that is not the actor's all-in total is
  always rejected without a change of state; the error is one of the kind
  InvalidRaiseAmount (the missing amount when the amount is 0, the minimum otherwise)
  when raising is legal for the actor, and IllegalAction when it is not: the guard
  \<open>legal['RAISE_TO_MIN']\<close> is tested before the amount is looked at.
\<close>

theorem rejected_action_atomic:
  "(process_action g action a = (Some e, g') \<longrightarrow> g' = g) \<and>
   (py_index (length (players (table g))) (current_idx g) = Some i \<and>
    a < highest_bet g + min_raise g \<and>
    a \<noteq> stack (players (table g) ! i) + current_bet (players (table g) ! i) \<longrightarrow>
      process_action g ''RAISE'' a =
        (Some (if truthy (RAISE_TO_MIN (legal_for g (players (table g) ! i)))
               then (if a = 0 then MissingRaiseAmount else RaiseBelowMinimum)
               else IllegalAction ''RAISE''), g))"
  by (auto simp: process_action_def Let_def split: option.splits if_splits)

theorem rejected_action_atomic_witness:
  "py_index (length (players (table (betting_scenario 1))))
     (current_idx (betting_scenario 1)) = Some 0 \<and>
   30 < highest_bet (betting_scenario 1) + min_raise (betting_scenario 1) \<and>
   30 \<noteq> stack (players (table (betting_scenario 1)) ! 0) +
          current_bet (players (table (betting_scenario 1)) ! 0) \<and>
   process_action (betting_scenario 1) ''RAISE'' 30 =
     (Some RaiseBelowMinimum, betting_scenario 1) \<and>
   is_InvalidRaiseAmount RaiseBelowMinimum"
proof -
  have a: "py_index (length (players (table (betting_scenario 1))))
     (current_idx (betting_scenario 1)) = Some 0"
    by code_simp
  have b: "30 < highest_bet (betting_scenario 1) + min_raise (betting_scenario 1)"
    by code_simp
  have c: "30 \<noteq> stack (players (table (betting_scenario 1)) ! 0) +
          current_bet (players (table (betting_scenario 1)) ! 0)"
    by code_simp
  have d: "truthy (RAISE_TO_MIN (legal_for (betting_scenario 1)
             (players (table (betting_scenario 1)) ! 0)))"
    by code_simp
  show ?thesis
    using a b c d rejected_action_atomic [of "betting_scenario 1" "''RAISE''" 30
        RaiseBelowMinimum "betting_scenario 1" 0]
    by simp
qed

theorem raise_without_raise_right_counterexample:
  "current_idx (raised_pot 30) = 1 \<and>
   50 < highest_bet (raised_pot 30) + min_raise (raised_pot 30) \<and>
   50 \<noteq> stack (players (table (raised_pot 30)) ! 1) +
          current_bet (players (table (raised_pot 30)) ! 1) \<and>
   fst (process_action (raised_pot 30) ''RAISE'' 50) = Some (IllegalAction ''RAISE'') \<and>
   \<not> is_InvalidRaiseAmount (IllegalAction ''RAISE'')"
  by code_simp

subsection \<open>Acted players never stand above the highest bet\<close>








text \<open>
  C4. After an accepted RAISE to the total \<open>a\<close>, \<open>highest_bet\<close> is \<open>a\<close>. If the increment
  \<open>a - highest_bet\<close> reaches \<open>min_raise\<close>, it becomes the new \<open>min_raise\<close> and the
  acted-set holds the raiser alone; otherwise \<open>min_raise\<close> stays and the acted-set is the
  old one with the raiser added. The raiser is recorded under \<open>current_idx\<close>.
\<close>

theorem raise_updates:
  "process_action g ''RAISE'' a = (None, g') \<Longrightarrow>
     highest_bet g' = a \<and>
     (if a - highest_bet g \<ge> min_raise g
      then min_raise g' = a - highest_bet g \<and> acted_this_round g' = {current_idx g}
      else min_raise g' = min_raise g \<and>
           acted_this_round g' = insert (current_idx g) (acted_this_round g))"
  by (auto simp: process_action_def Let_def finish_action_fields commit_bet_fields
      split: option.splits if_splits)

theorem raise_updates_witness:
  "process_action (betting_scenario 1) ''RAISE'' 100 = (None, raised_pot 1000) \<and>
   highest_bet (raised_pot 1000) = 100 \<and> min_raise (raised_pot 1000) = 80 \<and>
   acted_this_round (raised_pot 1000) = {0} \<and>
   process_action (raised_pot 150) ''RAISE'' 150 =
     (None, snd (process_action (raised_pot 150) ''RAISE'' 150)) \<and>
   highest_bet (snd (process_action (raised_pot 150) ''RAISE'' 150)) = 150 \<and>
   min_raise (snd (process_action (raised_pot 150) ''RAISE'' 150)) = 80 \<and>
   acted_this_round (snd (process_action (raised_pot 150) ''RAISE'' 150)) = {1, 0}"
proof -
  have e: "snd (process_action (betting_scenario 1) ''RAISE'' 100) = raised_pot 1000"
    by (simp add: betting_scenario_def raised_pot_def heads_up_def)
  have "fst (process_action (betting_scenario 1) ''RAISE'' 100) = None" by code_simp
  then have h1: "process_action (betting_scenario 1) ''RAISE'' 100 = (None, raised_pot 1000)"
    using e by (simp add: prod_eq_iff)
  have "fst (process_action (raised_pot 150) ''RAISE'' 150) = None" by code_simp
  then have h2: "process_action (raised_pot 150) ''RAISE'' 150 =
     (None, snd (process_action (raised_pot 150) ''RAISE'' 150))"
    by (simp add: prod_eq_iff)
  have v1: "highest_bet (betting_scenario 1) = 20" "min_raise (betting_scenario 1) = 20"
    "current_idx (betting_scenario 1) = 0"
    by code_simp+
  have v2: "highest_bet (raised_pot 150) = 100" "min_raise (raised_pot 150) = 80"
    "current_idx (raised_pot 150) = 1" "acted_this_round (raised_pot 150) = {0}"
    by code_simp+
  show ?thesis
    using h1 h2 raise_updates [OF h1] raise_updates [OF h2] v1 v2 by simp
qed


lemma start_hand_two_posters:
  fixes g :: game_controller
  assumes ne: "players (table g) \<noteq> []"
    and t: "t = Table_reset_for_hand (table g)" and ps: "ps = players t"
    and sb: "sb_idx = next_active ps ((button_idx t + 1) mod int (length ps))"
    and bb: "bb_idx = next_active ps sb_idx"
    and nn: "0 \<le> sb_idx" "0 \<le> bb_idx" and dist: "sb_idx \<noteq> bb_idx"
    and b1: "bet (ps ! nat sb_idx) (small_blind_amount t) = (p1, a1)"
    and b2: "bet (ps ! nat bb_idx) (big_blind_amount t) = (p2, a2)"
  shows "fst (start_hand g) = None"
    and "players (table (snd (start_hand g))) = ps[nat sb_idx := p1, nat bb_idx := p2]"
    and "pots (table (snd (start_hand g))) = [pot_add Pot_init (a1 + a2)]"
    and "nat sb_idx < length ps" and "nat bb_idx < length ps"
proof -
  have psne: "ps \<noteq> []" using ne by (simp add: ps t Table_reset_for_hand_def)
  have r1: "sb_idx < int (length ps)" using next_active_range [OF psne] sb by simp
  have r2: "bb_idx < int (length ps)" using next_active_range [OF psne] bb by simp
  show l1: "nat sb_idx < length ps" and l2: "nat bb_idx < length ps" using r1 r2 nn by simp_all
  have i1: "py_index (length ps) sb_idx = Some (nat sb_idx)"
    and i2: "py_index (length ps) bb_idx = Some (nat bb_idx)"
    using r1 r2 nn by (simp_all add: py_index_def)
  have ne12: "nat sb_idx \<noteq> nat bb_idx" using nn dist by simp
  have res: "start_hand g =
     (None, g\<lparr>table := t\<lparr>button_idx := (button_idx t + 1) mod int (length ps),
                          players := ps[nat sb_idx := p1, nat bb_idx := p2],
                          pots := [pot_add Pot_init (a1 + a2)]\<rparr>,
              phase := PRE_FLOP, highest_bet := big_blind_amount t,
              min_raise := big_blind_amount t,
              current_idx := next_active (ps[nat sb_idx := p1, nat bb_idx := p2]) bb_idx,
              acted_this_round := {}\<rparr>)"
    using psne i1 i2 b1 b2 ne12 l1 l2
    unfolding start_hand_def Let_def t [symmetric] ps [symmetric]
    apply (simp add: sb [symmetric] ps [symmetric])
    apply (simp add: bb [symmetric] post_blind_def ps [symmetric])
    apply (simp add: t Table_reset_for_hand_def bb sb)
    done
  show "fst (start_hand g) = None" by (simp add: res)
  show "players (table (snd (start_hand g))) = ps[nat sb_idx := p1, nat bb_idx := p2]"
    by (simp add: res)
  show "pots (table (snd (start_hand g))) = [pot_add Pot_init (a1 + a2)]" by (simp add: res)
qed

subsection \<open>\<open>_next_active\<close> finds the next player who can act\<close>

lemma next_active_loop_upt:
  assumes "a \<le> i" "i < b"
    and "is_active (ps ! nat ((s + int i) mod int (length ps)))"
    and "\<not> is_all_in (ps ! nat ((s + int i) mod int (length ps)))"
  shows "\<exists>i'. a \<le> i' \<and> i' \<le> i \<and>
            next_active_loop ps s [a ..< b] = (s + int i') mod int (length ps) \<and>
            is_active (ps ! nat ((s + int i') mod int (length ps))) \<and>
            \<not> is_all_in (ps ! nat ((s + int i') mod int (length ps)))"
  using assms
proof (induction "i - a" arbitrary: a)
  case 0
  then have ai: "a = i" by simp
  have u: "[a ..< b] = a # [Suc a ..< b]" using 0 by (simp add: upt_conv_Cons)
  have "next_active_loop ps s [a ..< b] = (s + int i) mod int (length ps)"
    unfolding u using 0(4,5) by (simp add: Let_def ai)
  then show ?case using 0(4,5) ai by blast
next
  case (Suc d)
  then have ab: "a < b" and ai: "Suc a \<le> i" by simp_all
  have u: "[a ..< b] = a # [Suc a ..< b]" using ab by (rule upt_conv_Cons)
  show ?case
  proof (cases "is_active (ps ! nat ((s + int a) mod int (length ps))) \<and>
                \<not> is_all_in (ps ! nat ((s + int a) mod int (length ps)))")
    case True
    have "next_active_loop ps s [a ..< b] = (s + int a) mod int (length ps)"
      unfolding u using True by (simp add: Let_def)
    then show ?thesis using True Suc.prems(1) by blast
  next
    case False
    have "d = i - Suc a" using Suc.hyps(2) by simp
    from Suc.hyps(1) [OF this ai Suc.prems(2-4)]
    obtain i' where i': "Suc a \<le> i'" "i' \<le> i"
      "next_active_loop ps s [Suc a ..< b] = (s + int i') mod int (length ps)"
      "is_active (ps ! nat ((s + int i') mod int (length ps)))"
      "\<not> is_all_in (ps ! nat ((s + int i') mod int (length ps)))"
      by blast
    have "next_active_loop ps s [a ..< b] = next_active_loop ps s [Suc a ..< b]"
      unfolding u using False by (auto simp: Let_def)
    moreover have "a \<le> i'" using i'(1) by simp
    ultimately show ?thesis using i' by metis
  qed
qed

lemma next_active_finds:
  assumes j: "j < length ps" "is_active (ps ! j)" "\<not> is_all_in (ps ! j)"
  shows "\<exists>i'. 1 \<le> i' \<and> i' \<le> length ps \<and>
           next_active ps s = (s + int i') mod int (length ps) \<and>
           is_active (ps ! nat (next_active ps s)) \<and>
           \<not> is_all_in (ps ! nat (next_active ps s)) \<and>
           (int j \<noteq> s mod int (length ps) \<longrightarrow> i' < length ps)"
proof -
  let ?n = "int (length ps)"
  have n: "0 < ?n" using j(1) by (cases ps) simp_all
  define m where "m = (int j - s - 1) mod ?n"
  define i where "i = nat m + 1"
  have r: "0 \<le> m" "m < ?n" using n by (simp_all add: m_def)
  have i1: "1 \<le> i" "i < Suc (length ps)" using r by (simp_all add: i_def)
  have ii: "int i = m + 1" using r by (simp add: i_def)
  have "s + int i = (int j - s - 1) mod ?n + (s + 1)" by (simp add: ii m_def)
  then have "(s + int i) mod ?n = ((int j - s - 1) mod ?n + (s + 1)) mod ?n"
    by (rule arg_cong [where f = "\<lambda>x. x mod ?n"])
  also have "\<dots> = ((int j - s - 1) + (s + 1)) mod ?n" by (rule mod_add_left_eq)
  also have "\<dots> = int j mod ?n" by simp
  also have "\<dots> = int j" using j(1) by simp
  finally have ij: "(s + int i) mod ?n = int j" .
  have e: "is_active (ps ! nat ((s + int i) mod ?n))" "\<not> is_all_in (ps ! nat ((s + int i) mod ?n))"
    using j(2,3) by (simp_all add: ij)
  from next_active_loop_upt [OF i1(1) i1(2) e]
  obtain i' where i': "1 \<le> i'" "i' \<le> i"
    "next_active_loop ps s [1 ..< Suc (length ps)] = (s + int i') mod ?n"
    "is_active (ps ! nat ((s + int i') mod ?n))"
    "\<not> is_all_in (ps ! nat ((s + int i') mod ?n))"
    by blast
  have na: "next_active ps s = (s + int i') mod ?n" using i'(3) by (simp add: next_active_def)
  have lt: "i' < length ps" if ne: "int j \<noteq> s mod ?n"
  proof -
    have "i \<noteq> length ps"
    proof
      assume "i = length ps"
      then have "(s + int i) mod ?n = s mod ?n" by simp
      then show False using ij ne by simp
    qed
    then show ?thesis using i1 i'(2) by simp
  qed
  have le: "i' \<le> length ps" using i'(2) i1(2) by simp
  have act: "is_active (ps ! nat (next_active ps s))"
    "\<not> is_all_in (ps ! nat (next_active ps s))"
    unfolding na by (rule i'(4), rule i'(5))
  show ?thesis
  proof (intro exI [of _ i'] conjI impI)
    show "1 \<le> i'" by (rule i'(1))
    show "i' \<le> length ps" by (rule le)
    show "next_active ps s = (s + int i') mod ?n" by (rule na)
    show "is_active (ps ! nat (next_active ps s))" by (rule act(1))
    show "\<not> is_all_in (ps ! nat (next_active ps s))" by (rule act(2))
    show "i' < length ps" if "int j \<noteq> s mod ?n" using that by (rule lt)
  qed
qed

lemma next_active_other:
  assumes "1 \<le> i'" "i' < n" "0 \<le> s" "s < int n"
  shows "(s + int i') mod int n \<noteq> s"
proof (cases "s + int i' < int n")
  case True
  then have "(s + int i') mod int n = s + int i'" using assms by simp
  then show ?thesis using assms by simp
next
  case False
  have "(s + int i' - int n) mod int n = s + int i' - int n"
    using False assms by (intro mod_pos_pos_trivial) simp_all
  moreover have "(s + int i' - int n) mod int n = (s + int i') mod int n"
    by (rule minus_mod_self2)
  ultimately have "(s + int i') mod int n = s + int i' - int n" by simp
  then show ?thesis using assms by simp
qed

text \<open>
  C5. When at least two players have chips, \<open>start_hand\<close> finds two different
  players for the blinds, each with chips. Each posts the blind capped at the stack he
  had, is all-in exactly when the post leaves him no chips, and the pot holds both
  posts. With two stacks of 100 and a big blind of 200 (small blind 100, as
  test\_loop.py sets it) the pot is 200 and both are all-in.
\<close>

theorem blinds_posted:
  "(i < length (players (table g)) \<and> j < length (players (table g)) \<and> i \<noteq> j \<and>
    0 < stack (players (table g) ! i) \<and> 0 < stack (players (table g) ! j) \<and>
    t = Table_reset_for_hand (table g) \<and> ps = players t \<and>
    sb_idx = next_active ps ((button_idx t + 1) mod int (length ps)) \<and>
    bb_idx = next_active ps sb_idx \<and>
    sb_stack = stack (players (table g) ! nat sb_idx) \<and>
    bb_stack = stack (players (table g) ! nat bb_idx) \<and>
    sbp = players (table (snd (start_hand g))) ! nat sb_idx \<and>
    bbp = players (table (snd (start_hand g))) ! nat bb_idx \<longrightarrow>
      fst (start_hand g) = None \<and>
      0 \<le> sb_idx \<and> sb_idx < int (length (players (table g))) \<and>
      0 \<le> bb_idx \<and> bb_idx < int (length (players (table g))) \<and> sb_idx \<noteq> bb_idx \<and>
      0 < sb_stack \<and> 0 < bb_stack \<and>
      total_invested sbp = min (small_blind_amount (table g)) sb_stack \<and>
      stack sbp = sb_stack - total_invested sbp \<and>
      is_all_in sbp = (stack sbp = 0) \<and>
      total_invested bbp = min (big_blind_amount (table g)) bb_stack \<and>
      stack bbp = bb_stack - total_invested bbp \<and>
      is_all_in bbp = (stack bbp = 0) \<and>
      get_total_pot_size (table (snd (start_hand g))) =
        total_invested sbp + total_invested bbp)
   \<and>
   (fst (start_hand (heads_up 200 100)) = None \<and>
    get_total_pot_size (table (snd (start_hand (heads_up 200 100)))) = 200 \<and>
    is_all_in (players (table (snd (start_hand (heads_up 200 100)))) ! 0) \<and>
    is_all_in (players (table (snd (start_hand (heads_up 200 100)))) ! 1))"
proof (intro conjI impI)
  assume h: "i < length (players (table g)) \<and> j < length (players (table g)) \<and> i \<noteq> j \<and>
    0 < stack (players (table g) ! i) \<and> 0 < stack (players (table g) ! j) \<and>
    t = Table_reset_for_hand (table g) \<and> ps = players t \<and>
    sb_idx = next_active ps ((button_idx t + 1) mod int (length ps)) \<and>
    bb_idx = next_active ps sb_idx \<and>
    sb_stack = stack (players (table g) ! nat sb_idx) \<and>
    bb_stack = stack (players (table g) ! nat bb_idx) \<and>
    sbp = players (table (snd (start_hand g))) ! nat sb_idx \<and>
    bbp = players (table (snd (start_hand g))) ! nat bb_idx"
  then have ij: "i < length (players (table g))" "j < length (players (table g))" "i \<noteq> j"
    "0 < stack (players (table g) ! i)" "0 < stack (players (table g) ! j)"
    and hs: "t = Table_reset_for_hand (table g)" "ps = players t"
    "sb_idx = next_active ps ((button_idx t + 1) mod int (length ps))"
    "bb_idx = next_active ps sb_idx"
    by blast+
  have ne: "players (table g) \<noteq> []" using ij(1) by auto
  have len: "length ps = length (players (table g))"
    using hs(1,2) by (simp add: Table_reset_for_hand_def)
  have psi: "\<And>k. k < length ps \<Longrightarrow> ps ! k = Player_reset_for_hand (players (table g) ! k)"
    using hs(1,2) by (simp add: Table_reset_for_hand_def)
  have el: "\<And>k. k < length ps \<Longrightarrow>
      (is_active (ps ! k) \<and> \<not> is_all_in (ps ! k)) = (0 < stack (players (table g) ! k))"
    by (simp add: psi Player_reset_for_hand_def)
  have "0 < length (players (table g))" using ne by simp
  then have n: "0 < int (length ps)" using len by simp
  have ei: "is_active (ps ! i)" "\<not> is_all_in (ps ! i)"
    and ej: "is_active (ps ! j)" "\<not> is_all_in (ps ! j)"
    using el [of i] el [of j] ij len by simp_all
  have il: "i < length ps" using ij(1) len by simp
  note f1 = next_active_finds [OF il ei, of "(button_idx t + 1) mod int (length ps)",
      folded hs(3)]
  then obtain i1 where i1: "sb_idx = ((button_idx t + 1) mod int (length ps) + int i1) mod int (length ps)"
    "is_active (ps ! nat sb_idx)" "\<not> is_all_in (ps ! nat sb_idx)"
    by blast
  have sbr: "0 \<le> sb_idx" "sb_idx < int (length ps)" using n by (simp_all add: i1(1))
  obtain k where k: "k < length ps" "is_active (ps ! k)" "\<not> is_all_in (ps ! k)" "int k \<noteq> sb_idx"
    using ij(1-3) ei ej len by (cases "int i = sb_idx") auto
  have sm: "sb_idx mod int (length ps) = sb_idx" using sbr by simp
  note f2 = next_active_finds [OF k(1-3), of sb_idx, folded hs(4), unfolded sm]
  then obtain i2 where i2: "1 \<le> i2" "i2 < length ps"
    "bb_idx = (sb_idx + int i2) mod int (length ps)"
    "is_active (ps ! nat bb_idx)" "\<not> is_all_in (ps ! nat bb_idx)"
    using k(4) by blast
  have bbr: "0 \<le> bb_idx" "bb_idx < int (length ps)" using n by (simp_all add: i2(3))
  have dist: "sb_idx \<noteq> bb_idx"
    using next_active_other [OF i2(1,2) sbr] i2(3) by simp
  obtain p1 a1 where b1: "bet (ps ! nat sb_idx) (small_blind_amount t) = (p1, a1)"
    by (cases "bet (ps ! nat sb_idx) (small_blind_amount t)")
  obtain p2 a2 where b2: "bet (ps ! nat bb_idx) (big_blind_amount t) = (p2, a2)"
    by (cases "bet (ps ! nat bb_idx) (big_blind_amount t)")
  note sh = start_hand_two_posters [OF ne hs sbr(1) bbr(1) dist b1 b2]
  have d: "nat sb_idx \<noteq> nat bb_idx" using sbr(1) bbr(1) dist by simp
  have sbp: "sbp = p1" and bbp: "bbp = p2" using h sh(2,4,5) d by simp_all
  have r1: "stack (ps ! nat sb_idx) = sb_stack" "\<not> is_all_in (ps ! nat sb_idx)"
    "total_invested (ps ! nat sb_idx) = 0"
    using h psi [OF sh(4)] by (simp_all add: Player_reset_for_hand_def)
  have r2: "stack (ps ! nat bb_idx) = bb_stack" "\<not> is_all_in (ps ! nat bb_idx)"
    "total_invested (ps ! nat bb_idx) = 0"
    using h psi [OF sh(5)] by (simp_all add: Player_reset_for_hand_def)
  have blinds: "small_blind_amount t = small_blind_amount (table g)"
    "big_blind_amount t = big_blind_amount (table g)"
    using hs(1) by (simp_all add: Table_reset_for_hand_def)
  have e1: "a1 = min (small_blind_amount (table g)) sb_stack" "stack p1 = sb_stack - a1"
    "is_all_in p1 = (small_blind_amount (table g) \<ge> sb_stack)" "total_invested p1 = a1"
    using bet_effect [OF b1] r1 blinds by simp_all
  have e2: "a2 = min (big_blind_amount (table g)) bb_stack" "stack p2 = bb_stack - a2"
    "is_all_in p2 = (big_blind_amount (table g) \<ge> bb_stack)" "total_invested p2 = a2"
    using bet_effect [OF b2] r2 blinds by simp_all
  show "fst (start_hand g) = None" by (rule sh(1))
  show "0 \<le> sb_idx" "0 \<le> bb_idx" "sb_idx \<noteq> bb_idx" by (rule sbr(1), rule bbr(1), rule dist)
  show "sb_idx < int (length (players (table g)))" "bb_idx < int (length (players (table g)))"
    using sbr(2) bbr(2) len by simp_all
  show "0 < sb_stack" using el [OF sh(4)] i1(2,3) h by simp
  show "0 < bb_stack" using el [OF sh(5)] i2(4,5) h by simp
  show "total_invested sbp = min (small_blind_amount (table g)) sb_stack"
    using e1 by (simp add: sbp)
  show "stack sbp = sb_stack - total_invested sbp" using e1 by (simp add: sbp)
  show "is_all_in sbp = (stack sbp = 0)" using e1 by (auto simp: sbp)
  show "total_invested bbp = min (big_blind_amount (table g)) bb_stack"
    using e2 by (simp add: bbp)
  show "stack bbp = bb_stack - total_invested bbp" using e2 by (simp add: bbp)
  show "is_all_in bbp = (stack bbp = 0)" using e2 by (auto simp: bbp)
  show "get_total_pot_size (table (snd (start_hand g))) =
        total_invested sbp + total_invested bbp"
    using e1 e2 by (simp add: get_total_pot_size_def sh(3) pot_add_def Pot_init_def sbp bbp)
next
  show "fst (start_hand (heads_up 200 100)) = None" by code_simp
  show "get_total_pot_size (table (snd (start_hand (heads_up 200 100)))) = 200" by code_simp
  show "is_all_in (players (table (snd (start_hand (heads_up 200 100)))) ! 0)" by code_simp
  show "is_all_in (players (table (snd (start_hand (heads_up 200 100)))) ! 1)" by code_simp
qed

theorem blinds_posted_witness:
  "length (players (table (heads_up 20 1000))) = 2 \<and>
   0 < stack (players (table (heads_up 20 1000)) ! 0) \<and>
   0 < stack (players (table (heads_up 20 1000)) ! 1) \<and>
   next_active (players (Table_reset_for_hand (table (heads_up 20 1000))))
     ((button_idx (Table_reset_for_hand (table (heads_up 20 1000))) + 1) mod
      int (length (players (Table_reset_for_hand (table (heads_up 20 1000)))))) = 0 \<and>
   next_active (players (Table_reset_for_hand (table (heads_up 20 1000)))) 0 = 1 \<and>
   total_invested (players (table (snd (start_hand (heads_up 20 1000)))) ! 0) = 10 \<and>
   stack (players (table (snd (start_hand (heads_up 20 1000)))) ! 0) = 990 \<and>
   \<not> is_all_in (players (table (snd (start_hand (heads_up 20 1000)))) ! 0) \<and>
   total_invested (players (table (snd (start_hand (heads_up 20 1000)))) ! 1) = 20 \<and>
   stack (players (table (snd (start_hand (heads_up 20 1000)))) ! 1) = 980 \<and>
   \<not> is_all_in (players (table (snd (start_hand (heads_up 20 1000)))) ! 1) \<and>
   get_total_pot_size (table (snd (start_hand (heads_up 20 1000)))) = 30"
proof -
  have a: "length (players (table (heads_up 20 1000))) = 2"
    by code_simp
  have b: "next_active (players (Table_reset_for_hand (table (heads_up 20 1000))))
     ((button_idx (Table_reset_for_hand (table (heads_up 20 1000))) + 1) mod
      int (length (players (Table_reset_for_hand (table (heads_up 20 1000)))))) = 0"
    by code_simp
  have c: "next_active (players (Table_reset_for_hand (table (heads_up 20 1000)))) 0 = 1"
    by code_simp
  have d: "stack (players (table (heads_up 20 1000)) ! 0) = 1000"
    "stack (players (table (heads_up 20 1000)) ! 1) = 1000"
    "small_blind_amount (table (heads_up 20 1000)) = 10"
    "big_blind_amount (table (heads_up 20 1000)) = 20"
    by code_simp+
  show ?thesis
    using a b c d
      blinds_posted [where g = "heads_up 20 1000" and i = 0 and j = 1
        and t = "Table_reset_for_hand (table (heads_up 20 1000))"
        and ps = "players (Table_reset_for_hand (table (heads_up 20 1000)))"
        and sb_idx = 0 and bb_idx = 1 and sb_stack = 1000 and bb_stack = 1000
        and sbp = "players (table (snd (start_hand (heads_up 20 1000)))) ! 0"
        and bbp = "players (table (snd (start_hand (heads_up 20 1000)))) ! 1"]
    by simp
qed

text \<open>
  C6. The scenario of test\_betting.py, run on the model: two stacks of 1000, blinds 10
  and 20. After \<open>start_hand\<close> the pot is 30, player 0 has posted the small blind and
  is the first to act, and the button index is 1, the other player. His CALL makes the
  pot 40 and the CHECK of player 1 ends the round.
\<close>

theorem heads_up_scenario_trace:
  "fst (start_hand (heads_up 20 1000)) = None \<and>
   get_total_pot_size (table (betting_scenario 1)) = 30 \<and>
   current_bet (players (table (betting_scenario 1)) ! 0) = 10 \<and>
   current_bet (players (table (betting_scenario 1)) ! 1) = 20 \<and>
   current_idx (betting_scenario 1) = 0 \<and>
   button_idx (table (betting_scenario 1)) = 1 \<and>
   fst (process_action (betting_scenario 1) ''CALL'' 0) = None \<and>
   get_total_pot_size (table (betting_scenario 2)) = 40 \<and>
   \<not> is_round_over (betting_scenario 2) \<and>
   current_idx (betting_scenario 2) = 1 \<and>
   fst (process_action (betting_scenario 2) ''CHECK'' 0) = None \<and>
   is_round_over (betting_scenario 3)"
  by code_simp


subsection \<open>The sampler draws without replacement\<close>

lemma distinct_full_deck: "distinct full_deck"
  by code_simp

lemma length_full_deck: "length full_deck = 52"
  by code_simp

lemma deal_board_take:
  "k \<le> length av \<Longrightarrow> deal_board k sb av = Inr (sb @ take k (rev av))"
proof (induction k arbitrary: sb av)
  case 0
  then show ?case by simp
next
  case (Suc k)
  then have ne: "av \<noteq> []" by auto
  then have r: "rev av = last av # rev (butlast av)"
    by (metis append_butlast_last_id rev_append append_Cons append_Nil rev_singleton_conv)
  have "k \<le> length (butlast av)" using Suc.prems by simp
  from Suc.IH [OF this, of "sb @ [last av]"] show ?case
    using ne by (simp add: pop_def r)
qed

lemma available_cards:
  assumes perm: "\<forall>r xs. mset (fst (shuffle r xs)) = mset xs"
    and s1: "shuffle r full_deck = (deck_cards, r1)"
    and s2: "shuffle r1 (filter (\<lambda>c. c \<notin> set (pocket @ board)) deck_cards) = (av, r2)"
  shows "distinct av" and "set av = set full_deck - set (pocket @ board)"
    and "52 \<le> length av + length (pocket @ board)"
proof -
  let ?P = "\<lambda>c. c \<notin> set (pocket @ board)"
  have m1: "mset deck_cards = mset full_deck" using perm [rule_format, of r full_deck] s1 by simp
  have "mset av = mset (filter ?P deck_cards)"
    using perm [rule_format, of r1 "filter ?P deck_cards"] s2 by simp
  also have "\<dots> = mset (filter ?P full_deck)" by (simp only: mset_filter m1)
  finally have m2: "mset av = mset (filter ?P full_deck)" .
  have d: "distinct (filter ?P full_deck)" using distinct_full_deck by simp
  show "distinct av" using m2 d by (metis mset_eq_imp_distinct_iff)
  have "set av = set (filter ?P full_deck)" using m2 by (rule mset_eq_setD)
  then show "set av = set full_deck - set (pocket @ board)" by auto
  have l: "length av = length (filter ?P full_deck)" using m2 by (rule mset_eq_length)
  have "length (filter (\<lambda>c. c \<in> set (pocket @ board)) full_deck)
     = card (set (filter (\<lambda>c. c \<in> set (pocket @ board)) full_deck))"
    by (rule distinct_card [symmetric]) (rule distinct_filter [OF distinct_full_deck])
  also have "\<dots> \<le> card (set (pocket @ board))" by (rule card_mono) auto
  also have "\<dots> \<le> length (pocket @ board)" by (rule card_length)
  finally have k: "length (filter (\<lambda>c. c \<in> set (pocket @ board)) full_deck) \<le> length (pocket @ board)" .
  have "length (filter ?P full_deck) + length (filter (\<lambda>c. c \<in> set (pocket @ board)) full_deck) = 52"
    using sum_length_filter_compl [of "\<lambda>c. c \<in> set (pocket @ board)" full_deck]
    by (simp add: length_full_deck)
  then show "52 \<le> length av + length (pocket @ board)" using k l by linarith
qed

lemma trial_exact:
  assumes perm: "\<forall>r xs. mset (fst (shuffle r xs)) = mset xs"
    and board: "length board \<le> 5" and known: "length pocket + length board \<le> 45"
  shows "\<exists>t r'. trial shuffle pocket board r = (Inr t, r') \<and> exact_draw pocket board t"
proof -
  obtain deck_cards r1 where s1: "shuffle r full_deck = (deck_cards, r1)"
    by (cases "shuffle r full_deck")
  obtain av r2 where
    s2: "shuffle r1 (filter (\<lambda>c. c \<notin> set (pocket @ board)) deck_cards) = (av, r2)"
    by (cases "shuffle r1 (filter (\<lambda>c. c \<notin> set (pocket @ board)) deck_cards)")
  note av = available_cards [OF perm s1 s2]
  define n where "n = 5 - length board"
  have len: "7 \<le> length av" using av(3) known by simp
  then obtain c1 c2 rest where d: "rev av = c1 # c2 # rest"
    by (cases "rev av"; cases "tl (rev av)") (auto simp: Suc_le_eq dest: arg_cong [where f = length])
  have avd: "av = rev rest @ [c2, c1]" using d by (metis rev_rev_ident rev.simps(2) append_Cons append_Nil append_assoc)
  have rest: "5 \<le> length rest" using len avd by simp
  have p1: "pop av = Inr (c1, rev rest @ [c2])" by (simp add: pop_def avd butlast_append)
  have p2: "pop (rev rest @ [c2]) = Inr (c2, rev rest)" by (simp add: pop_def)
  have nle: "n \<le> length (rev rest)" using rest by (simp add: n_def)
  have p3: "deal_board n board (rev rest) = Inr (board @ take n rest)"
    using deal_board_take [OF nle, of board] by simp
  have tr: "trial shuffle pocket board r = (Inr ([c1, c2], board @ take n rest), r2)"
    by (simp only: trial_def Let_def s1 s2 p1 p2 p3 n_def [symmetric] prod.case sum.case)
  have dr: "distinct (c1 # c2 # rest)" using av(1) d by (metis distinct_rev)
  have st: "set (c1 # c2 # rest) = set full_deck - set (pocket @ board)"
    using av(2) d by (metis set_rev)
  have tk: "set (take n rest) \<subseteq> set rest" by (rule set_take_subset)
  have dt: "distinct (take n rest)" using dr by simp
  have ln: "length (take n rest) = n" using rest by (simp add: n_def)
  have "exact_draw pocket board ([c1, c2], board @ take n rest)"
    unfolding exact_draw_def Let_def
    using dr st tk dt ln board
    by (auto simp: n_def dest: in_set_takeD)
  then show ?thesis using tr by blast
qed

lemma trial_log_exact:
  assumes ok: "\<forall>r. \<exists>t r'. trial shuffle pocket board r = (Inr t, r') \<and> exact_draw pocket board t"
  shows "length (trial_log shuffle pocket board k r) = k \<and>
     (\<forall>t \<in> set (trial_log shuffle pocket board k r). exact_draw pocket board t)"
proof (induction k arbitrary: r)
  case 0
  show ?case by simp
next
  case (Suc k)
  obtain t r' where t: "trial shuffle pocket board r = (Inr t, r')" "exact_draw pocket board t"
    using ok by blast
  show ?case using Suc.IH [of r'] t by simp
qed

lemma mc_loop_tallies:
  assumes ok: "\<forall>r. \<exists>t r'. trial shuffle pocket board r = (Inr t, r') \<and> exact_draw pocket board t"
  shows "\<exists>r'. mc_loop evaluate shuffle pocket board k w t r =
     (Inr (w + int (wins_of evaluate pocket (trial_log shuffle pocket board k r)),
           t + int (ties_of evaluate pocket (trial_log shuffle pocket board k r))), r')"
proof (induction k arbitrary: w t r)
  case 0
  show ?case by (simp add: wins_of_def ties_of_def)
next
  case (Suc k)
  obtain d r1 where d: "trial shuffle pocket board r = (Inr d, r1)"
    using ok by blast
  obtain opp sim where os: "d = (opp, sim)" by (cases d)
  let ?a = "evaluate sim pocket" and ?o = "evaluate sim opp"
  let ?rest = "trial_log shuffle pocket board k r1"
  define w1 where "w1 = (if ?a < ?o then w + 1 else w)"
  define t1 where "t1 = (if ?a < ?o then t else if ?a = ?o then t + 1 else t)"
  have step: "mc_loop evaluate shuffle pocket board (Suc k) w t r =
      mc_loop evaluate shuffle pocket board k w1 t1 r1"
    by (simp add: d os Let_def w1_def t1_def)
  obtain r' where ih: "mc_loop evaluate shuffle pocket board k w1 t1 r1 =
      (Inr (w1 + int (wins_of evaluate pocket ?rest),
            t1 + int (ties_of evaluate pocket ?rest)), r')"
    using Suc.IH by blast
  have lg: "trial_log shuffle pocket board (Suc k) r = (opp, sim) # ?rest"
    by (simp add: d os)
  have "w1 + int (wins_of evaluate pocket ?rest) =
      w + int (wins_of evaluate pocket ((opp, sim) # ?rest))"
    by (simp add: w1_def wins_of_def)
  moreover have "t1 + int (ties_of evaluate pocket ?rest) =
      t + int (ties_of evaluate pocket ((opp, sim) # ?rest))"
    by (simp add: t1_def ties_of_def)
  ultimately show ?case unfolding step ih lg by simp
qed

lemma tallies_bound: "wins_of evaluate pocket draws + ties_of evaluate pocket draws \<le> length draws"
  unfolding wins_of_def ties_of_def
  by (induction draws) auto

lemma mset_rotate: "mset (rotate k xs) = mset xs"
proof -
  have "mset (drop (k mod length xs) xs @ take (k mod length xs) xs) =
      mset (take (k mod length xs) xs @ drop (k mod length xs) xs)"
    by (simp only: mset_append union_commute)
  then show ?thesis by (simp only: rotate_drop_take append_take_drop_id)
qed

text \<open>
  C8. For a non-empty hero hand and a board of at most five cards (together at most
  45 cards, which two hole cards always are) and \<open>n > 0\<close> iterations, whatever
  permutations the random source chooses: the estimator runs \<open>n\<close> trials, each one an
  exact draw without replacement, and returns \<open>(wins + ties / 2) / n\<close> for the wins and
  ties of these trials, a number between 0 and 1.
\<close>

theorem equity_estimate:
  assumes "\<forall>r xs. mset (fst (shuffle r xs)) = mset xs"
    and "pocket \<noteq> []" and "length board \<le> 5"
    and "length pocket + length board \<le> 45" and "0 < n"
  shows
    "(let draws = trial_log shuffle pocket board (nat n) r;
          e = (of_nat (wins_of evaluate pocket draws) + of_nat (ties_of evaluate pocket draws) / 2)
                / of_int n
      in length draws = nat n \<and> (\<forall>t \<in> set draws. exact_draw pocket board t) \<and>
         fst (monte_carlo_equity evaluate shuffle pocket board n r) = Inr e \<and>
         0 \<le> e \<and> e \<le> 1)"
proof -
  let ?draws = "trial_log shuffle pocket board (nat n) r"
  let ?w = "wins_of evaluate pocket ?draws" and ?t = "ties_of evaluate pocket ?draws"
  let ?e = "(of_nat ?w + of_nat ?t / 2) / (of_int n :: rat)"
  have ok: "\<forall>r. \<exists>t r'. trial shuffle pocket board r = (Inr t, r') \<and> exact_draw pocket board t"
    using trial_exact [OF assms(1,3,4)] by blast
  note lg = trial_log_exact [OF ok, of "nat n" r]
  obtain r' where mc: "mc_loop evaluate shuffle pocket board (nat n) 0 0 r = (Inr (int ?w, int ?t), r')"
    using mc_loop_tallies [OF ok, of evaluate "nat n" 0 0 r] by auto
  have res: "fst (monte_carlo_equity evaluate shuffle pocket board n r) = Inr ?e"
    using assms(2,5) by (simp add: monte_carlo_equity_def mc)
  have "?w + ?t \<le> nat n" using tallies_bound [of evaluate pocket ?draws] lg by simp
  then have "of_nat ?w + of_nat ?t \<le> (of_int n :: rat)"
    using assms(5) by (metis of_nat_add of_nat_le_iff of_nat_nat less_imp_le)
  moreover have "(0::rat) \<le> of_nat ?t" by simp
  ultimately have up: "of_nat ?w + of_nat ?t / 2 \<le> (of_int n :: rat)" by linarith
  have pos: "(0::rat) < of_int n" using assms(5) by simp
  have "0 \<le> ?e" using pos by simp
  moreover have "?e \<le> 1" using up pos by (simp add: divide_le_eq)
  ultimately show ?thesis using lg res unfolding Let_def by blast
qed

theorem equity_estimate_witness:
  "(\<forall>r xs. mset (fst (rotating_shuffle r xs)) = mset xs) \<and>
   [''7s'', ''9c''] \<noteq> ([] :: card list) \<and>
   length [''2h'', ''3h'', ''4h''] \<le> 5 \<and>
   length [''7s'', ''9c''] + length [''2h'', ''3h'', ''4h''] \<le> 45 \<and> (0::int) < 4 \<and>
   length (trial_log rotating_shuffle [''7s'', ''9c''] [''2h'', ''3h'', ''4h''] 4 11) = 4 \<and>
   list_all (exact_draw [''7s'', ''9c''] [''2h'', ''3h'', ''4h''])
     (trial_log rotating_shuffle [''7s'', ''9c''] [''2h'', ''3h'', ''4h''] 4 11) \<and>
   wins_of code_sum_rank [''7s'', ''9c'']
     (trial_log rotating_shuffle [''7s'', ''9c''] [''2h'', ''3h'', ''4h''] 4 11) = 1 \<and>
   ties_of code_sum_rank [''7s'', ''9c'']
     (trial_log rotating_shuffle [''7s'', ''9c''] [''2h'', ''3h'', ''4h''] 4 11) = 1 \<and>
   fst (monte_carlo_equity code_sum_rank rotating_shuffle
          [''7s'', ''9c''] [''2h'', ''3h'', ''4h''] 4 11) = Inr (3 / 8)"
proof -
  have perm: "\<forall>r xs. mset (fst (rotating_shuffle r xs)) = mset xs"
    by (simp add: rotating_shuffle_def mset_rotate)
  have w: "wins_of code_sum_rank [''7s'', ''9c'']
     (trial_log rotating_shuffle [''7s'', ''9c''] [''2h'', ''3h'', ''4h''] 4 11) = 1"
    by code_simp
  have t: "ties_of code_sum_rank [''7s'', ''9c'']
     (trial_log rotating_shuffle [''7s'', ''9c''] [''2h'', ''3h'', ''4h''] 4 11) = 1"
    by code_simp
  have n: "nat 4 = 4" by simp
  show ?thesis
    using perm w t
      equity_estimate [OF perm, where pocket = "[''7s'', ''9c'']"
        and board = "[''2h'', ''3h'', ''4h'']" and n = 4 and evaluate = code_sum_rank
        and r = 11]
    by (simp add: Let_def n list_all_iff)
qed

text \<open>
  C10. With an empty hero hand the estimator returns 0 for every board and every
  iteration count, and the random source is left as it was: nothing is shuffled or drawn.
\<close>

theorem equity_of_empty_hand:
  "monte_carlo_equity evaluate shuffle [] board n r = (Inr 0, r)"
  by (simp add: monte_carlo_equity_def)

subsection \<open>The card parser\<close>



















end
